theory Spec2Isabelle
  imports Main
begin

section \<open>Data model (src/models/task.py)\<close>

text \<open>
  A Python \<open>str\<close> is a sequence of Unicode code points; a code point is modelled by its
  number. \<open>py_str\<close> turns an ASCII literal into such a sequence.
\<close>

type_synonym pystr = "nat list"

definition py_str :: "string \<Rightarrow> pystr" where
  "py_str cs = map of_char cs"

text \<open>
  Python objects are mutable and handed around by reference, so the model keeps them in
  an explicit store: every \<open>Task\<close> object and every \<open>list\<close> object lives at an address,
  and variables, list elements and return values hold addresses.
\<close>

type_synonym ref = nat

text \<open>The dataclass \<open>Task\<close>; the field \<open>id\<close> is written \<open>id'\<close>.\<close>

record Task =
  id' :: int
  description :: pystr
  is_complete :: bool

text \<open>
  The program state: the two object stores with their allocation marks (addresses below
  the mark are in use), and the two attributes of the one \<open>TaskList\<close> instance that the
  service owns: \<open>tasks\<close> (the address of its list object) and \<open>_next_id\<close>.
\<close>

record state =
  task_objs :: "ref \<Rightarrow> Task"
  task_top :: ref
  list_objs :: "ref \<Rightarrow> ref list"
  list_top :: ref
  tasks :: ref
  next_id :: int

text \<open>The elements of \<open>self.tasks\<close>, read through the reference.\<close>

definition self_tasks :: "state \<Rightarrow> ref list" where
  "self_tasks s = list_objs s (tasks s)"

text \<open>
  \<open>TodoService.__init__\<close> running \<open>TaskList.__init__\<close> in an empty store:
  \<open>self.tasks = []\<close> allocates the list object at address 0 and \<open>self._next_id = 1\<close>.
\<close>

definition TodoService_init :: state where
  "TodoService_init =
     \<lparr>task_objs = (\<lambda>_. \<lparr>id' = 0, description = [], is_complete = False\<rparr>),
      task_top = 0,
      list_objs = (\<lambda>_. []),
      list_top = 1,
      tasks = 0,
      next_id = 1\<rparr>"

section \<open>TaskList\<close>

text \<open>
  \<open>add\<close>: \<open>task = Task(id=self._next_id, description=description)\<close> allocates a new
  object (\<open>is_complete\<close> takes its default \<open>False\<close>), \<open>self.tasks.append(task)\<close> changes
  the list object in place, \<open>self._next_id += 1\<close>, and the reference is returned.
\<close>

definition add :: "state \<Rightarrow> pystr \<Rightarrow> ref \<times> state" where
  "add s descr =
     (let task = task_top s;
          s1 = s\<lparr>task_objs := (task_objs s)
                    (task := \<lparr>id' = next_id s, description = descr, is_complete = False\<rparr>),
                 task_top := Suc task\<rparr>;
          s2 = s1\<lparr>list_objs := (list_objs s1)(tasks s1 := list_objs s1 (tasks s1) @ [task])\<rparr>;
          s3 = s2\<lparr>next_id := next_id s2 + 1\<rparr>
      in (task, s3))"

text \<open>
  \<open>get_by_id\<close>: the \<open>for task in self.tasks\<close> loop, returning the first element whose
  \<open>id\<close> matches, and \<open>None\<close> when the loop runs out.
\<close>

fun get_by_id_loop :: "(ref \<Rightarrow> Task) \<Rightarrow> ref list \<Rightarrow> int \<Rightarrow> ref option" where
  "get_by_id_loop h [] task_id = None"
| "get_by_id_loop h (task # rest) task_id =
     (if id' (h task) = task_id then Some task else get_by_id_loop h rest task_id)"

definition get_by_id :: "state \<Rightarrow> int \<Rightarrow> ref option" where
  "get_by_id s task_id = get_by_id_loop (task_objs s) (self_tasks s) task_id"

text \<open>
  \<open>get_all\<close>: \<open>self.tasks.copy()\<close> allocates a new list object holding the same
  references (a shallow copy) and returns its address.
\<close>

definition get_all :: "state \<Rightarrow> ref \<times> state" where
  "get_all s =
     (let l = list_top s
      in (l, s\<lparr>list_objs := (list_objs s)(l := self_tasks s), list_top := Suc l\<rparr>))"

text \<open>\<open>update\<close>: assigns \<open>task.description\<close> on the object that \<open>get_by_id\<close> found.\<close>

definition update :: "state \<Rightarrow> int \<Rightarrow> pystr \<Rightarrow> bool \<times> state" where
  "update s task_id new_description =
     (case get_by_id s task_id of
        Some task \<Rightarrow>
          (True, s\<lparr>task_objs := (task_objs s)
                      (task := (task_objs s task)\<lparr>description := new_description\<rparr>)\<rparr>)
      | None \<Rightarrow> (False, s))"

text \<open>
  \<open>delete\<close>: the \<open>for i, task in enumerate(self.tasks)\<close> loop finds the index of the first
  element whose \<open>id\<close> matches; \<open>del self.tasks[i]\<close> removes that one element in place.
\<close>

fun delete_loop :: "(ref \<Rightarrow> Task) \<Rightarrow> ref list \<Rightarrow> int \<Rightarrow> nat \<Rightarrow> nat option" where
  "delete_loop h [] task_id i = None"
| "delete_loop h (task # rest) task_id i =
     (if id' (h task) = task_id then Some i else delete_loop h rest task_id (Suc i))"

definition del_item :: "nat \<Rightarrow> 'a list \<Rightarrow> 'a list" where
  "del_item i xs = take i xs @ drop (Suc i) xs"

definition delete :: "state \<Rightarrow> int \<Rightarrow> bool \<times> state" where
  "delete s task_id =
     (case delete_loop (task_objs s) (self_tasks s) task_id 0 of
        Some i \<Rightarrow>
          (True, s\<lparr>list_objs := (list_objs s)(tasks s := del_item i (self_tasks s))\<rparr>)
      | None \<Rightarrow> (False, s))"

definition mark_complete :: "state \<Rightarrow> int \<Rightarrow> bool \<times> state" where
  "mark_complete s task_id =
     (case get_by_id s task_id of
        Some task \<Rightarrow>
          (True, s\<lparr>task_objs := (task_objs s)
                      (task := (task_objs s task)\<lparr>is_complete := True\<rparr>)\<rparr>)
      | None \<Rightarrow> (False, s))"

definition mark_incomplete :: "state \<Rightarrow> int \<Rightarrow> bool \<times> state" where
  "mark_incomplete s task_id =
     (case get_by_id s task_id of
        Some task \<Rightarrow>
          (True, s\<lparr>task_objs := (task_objs s)
                      (task := (task_objs s task)\<lparr>is_complete := False\<rparr>)\<rparr>)
      | None \<Rightarrow> (False, s))"

section \<open>TodoService (src/services/todo_service.py)\<close>

text \<open>
  \<open>str.strip()\<close> removes leading and trailing whitespace, which for a \<open>str\<close> is every
  code point that \<open>str.isspace\<close> accepts.
\<close>

definition isspace :: "nat \<Rightarrow> bool" where
  "isspace c \<longleftrightarrow>
     (9 \<le> c \<and> c \<le> 13) \<or> (28 \<le> c \<and> c \<le> 32) \<or> c = 133 \<or> c = 160 \<or> c = 5760 \<or>
     (8192 \<le> c \<and> c \<le> 8202) \<or> c = 8232 \<or> c = 8233 \<or> c = 8239 \<or> c = 8287 \<or> c = 12288"

definition strip :: "pystr \<Rightarrow> pystr" where
  "strip s = rev (dropWhile isspace (rev (dropWhile isspace s)))"

text \<open>
  The service raises \<open>ValueError\<close>; a call returns either the raised error or its value,
  together with the state it leaves behind.
\<close>

datatype error = ValueError string

definition add_task :: "state \<Rightarrow> pystr \<Rightarrow> (error + ref) \<times> state" where
  "add_task s descr =
     (if descr = [] \<or> strip descr = []
      then (Inl (ValueError ''Description cannot be empty.''), s)
      else (case add s descr of (task, s') \<Rightarrow> (Inr task, s')))"

definition get_all_tasks :: "state \<Rightarrow> ref \<times> state" where
  "get_all_tasks s = get_all s"

definition get_task :: "state \<Rightarrow> int \<Rightarrow> ref option" where
  "get_task s task_id = get_by_id s task_id"

definition update_task :: "state \<Rightarrow> int \<Rightarrow> pystr \<Rightarrow> (error + bool) \<times> state" where
  "update_task s task_id new_description =
     (if new_description = [] \<or> strip new_description = []
      then (Inl (ValueError ''Description cannot be empty.''), s)
      else (case update s task_id new_description of (ok, s') \<Rightarrow> (Inr ok, s')))"

definition delete_task :: "state \<Rightarrow> int \<Rightarrow> bool \<times> state" where
  "delete_task s task_id = delete s task_id"

definition mark_complete_task :: "state \<Rightarrow> int \<Rightarrow> bool \<times> state" where
  "mark_complete_task s task_id = mark_complete s task_id"

definition mark_incomplete_task :: "state \<Rightarrow> int \<Rightarrow> bool \<times> state" where
  "mark_incomplete_task s task_id = mark_incomplete s task_id"

section \<open>Sessions: sequences of service calls\<close>

text \<open>
  The presentation layer drives the service by a sequence of calls, catching what they
  raise. \<open>perform\<close> runs one call and gives the state it leaves; \<open>session\<close> runs a sequence.
\<close>

datatype call =
    AddTask pystr
  | GetAllTasks
  | GetTask int
  | UpdateTask int pystr
  | DeleteTask int
  | MarkComplete int
  | MarkIncomplete int

fun perform :: "call \<Rightarrow> state \<Rightarrow> state" where
  "perform (AddTask d) s = snd (add_task s d)"
| "perform GetAllTasks s = snd (get_all_tasks s)"
| "perform (GetTask i) s = s"
| "perform (UpdateTask i d) s = snd (update_task s i d)"
| "perform (DeleteTask i) s = snd (delete_task s i)"
| "perform (MarkComplete i) s = snd (mark_complete_task s i)"
| "perform (MarkIncomplete i) s = snd (mark_incomplete_task s i)"

fun session :: "call list \<Rightarrow> state \<Rightarrow> state" where
  "session [] s = s"
| "session (c # cs) s = session cs (perform c s)"

text \<open>
  The Task that a call returned, when the call is a successful \<open>add_task\<close>; the Tasks that
  the successful \<open>add_task\<close> calls of a session returned, in call order; and the \<open>id\<close> each
  of them had when it was returned.
\<close>

fun new_task :: "call \<Rightarrow> state \<Rightarrow> ref option" where
  "new_task (AddTask d) s = (case fst (add_task s d) of Inr task \<Rightarrow> Some task | Inl e \<Rightarrow> None)"
| "new_task c s = None"

fun added :: "call list \<Rightarrow> state \<Rightarrow> ref list" where
  "added [] s = []"
| "added (c # cs) s =
     (case new_task c s of
        Some task \<Rightarrow> task # added cs (perform c s)
      | None \<Rightarrow> added cs (perform c s))"

fun added_ids :: "call list \<Rightarrow> state \<Rightarrow> int list" where
  "added_ids [] s = []"
| "added_ids (c # cs) s =
     (case new_task c s of
        Some task \<Rightarrow> id' (task_objs (perform c s) task) # added_ids cs (perform c s)
      | None \<Rightarrow> added_ids cs (perform c s))"

section \<open>What a caller sees and can do\<close>




section \<open>Specification vocabulary\<close>

text \<open>
  The specification's wording for a rejected description: it is empty or consists only
  of whitespace.
\<close>

definition blank :: "pystr \<Rightarrow> bool" where
  "blank d \<longleftrightarrow> d = [] \<or> (\<forall>c\<in>set d. isspace c)"

text \<open>
  Well-formed states: the list of the store is an allocated object, it holds allocated
  Tasks only, their identifiers are below the counter, and no identifier occurs twice.
\<close>

definition wf :: "state \<Rightarrow> bool" where
  "wf s \<longleftrightarrow>
     tasks s < list_top s \<and>
     (\<forall>t\<in>set (self_tasks s). t < task_top s \<and> id' (task_objs s t) < next_id s) \<and>
     distinct (map (\<lambda>t. id' (task_objs s t)) (self_tasks s))"

text \<open>
  The specification's account of which Tasks survive a session, kept apart from the list
  of the store: a log of the Tasks the session has added and not deleted since, each with
  the id it was given. A successful \<open>add_task\<close> puts the Task it returned at the end of the
  log, \<open>delete_task(i)\<close> strikes the entry whose id is \<open>i\<close>, and every other call leaves the
  log alone.
\<close>

fun note_call :: "call \<Rightarrow> state \<Rightarrow> (ref \<times> int) list \<Rightarrow> (ref \<times> int) list" where
  "note_call (DeleteTask i) s log = filter (\<lambda>p. snd p \<noteq> i) log"
| "note_call c s log =
     (case new_task c s of
        Some task \<Rightarrow> log @ [(task, id' (task_objs (perform c s) task))]
      | None \<Rightarrow> log)"

fun surviving :: "call list \<Rightarrow> state \<Rightarrow> (ref \<times> int) list \<Rightarrow> (ref \<times> int) list" where
  "surviving [] s log = log"
| "surviving (c # cs) s log = surviving cs (perform c s) (note_call c s log)"

section \<open>Auxiliary facts\<close>

subsection \<open>Blank descriptions and the two linear searches\<close>

lemma strip_empty_iff: "strip d = [] \<longleftrightarrow> (\<forall>c\<in>set d. isspace c)"
proof
  assume a: "strip d = []"
  have "dropWhile isspace d = []"
  proof (rule ccontr)
    assume n: "dropWhile isspace d \<noteq> []"
    then have "\<not> isspace (hd (dropWhile isspace d))" by (rule hd_dropWhile)
    moreover from a have "\<forall>x\<in>set (dropWhile isspace d). isspace x"
      by (simp add: strip_def dropWhile_eq_Nil_conv)
    ultimately show False using n by (meson hd_in_set)
  qed
  then show "\<forall>c\<in>set d. isspace c" by (simp add: dropWhile_eq_Nil_conv)
next
  assume "\<forall>c\<in>set d. isspace c"
  then show "strip d = []" unfolding strip_def by (auto dest: set_dropWhileD)
qed

lemma get_by_id_loop_None: "get_by_id_loop h xs i = None \<longleftrightarrow> (\<forall>t\<in>set xs. id' (h t) \<noteq> i)"
  by (induction xs) auto

lemma get_by_id_loop_Some: "get_by_id_loop h xs i = Some t \<Longrightarrow> t \<in> set xs \<and> id' (h t) = i"
  by (induction xs) (auto split: if_splits)

lemma get_by_id_loop_cong: "(\<And>t. t \<in> set xs \<Longrightarrow> id' (h' t) = id' (h t)) \<Longrightarrow> get_by_id_loop h' xs i = get_by_id_loop h xs i"
  by (induction xs) auto

lemma delete_loop_None: "delete_loop h xs i k = None \<longleftrightarrow> get_by_id_loop h xs i = None"
  by (induction xs arbitrary: k) auto

lemma delete_loop_Some: "delete_loop h xs i k = Some n \<Longrightarrow> k \<le> n \<and> n - k < length xs \<and> get_by_id_loop h xs i = Some (xs ! (n - k))"
proof (induction xs arbitrary: k)
  case Nil then show ?case by simp
next
  case (Cons t ts)
  show ?case
  proof (cases "id' (h t) = i")
    case True with Cons.prems show ?thesis by simp
  next
    case False
    with Cons.prems have "delete_loop h ts i (Suc k) = Some n" by simp
    from Cons.IH[OF this] have "Suc k \<le> n" "n - Suc k < length ts" "get_by_id_loop h ts i = Some (ts ! (n - Suc k))" by auto
    moreover from \<open>Suc k \<le> n\<close> have "n - k = Suc (n - Suc k)" by simp
    ultimately show ?thesis using False by simp
  qed
qed

lemma delete_loop_filter: "delete_loop h xs i k = Some n \<Longrightarrow> distinct (map (\<lambda>t. id' (h t)) xs) \<Longrightarrow> del_item (n - k) xs = filter (\<lambda>t. id' (h t) \<noteq> i) xs"
proof (induction xs arbitrary: k)
  case Nil then show ?case by simp
next
  case (Cons t ts)
  show ?case
  proof (cases "id' (h t) = i")
    case True
    with Cons.prems have "n = k" by simp
    moreover from True Cons.prems(2) have "\<forall>u\<in>set ts. id' (h u) \<noteq> i" by (auto simp: image_iff)
    then have "filter (\<lambda>t. id' (h t) \<noteq> i) ts = ts" by (simp add: filter_id_conv)
    ultimately show ?thesis using True by (simp add: del_item_def)
  next
    case False
    with Cons.prems have d: "delete_loop h ts i (Suc k) = Some n" by simp
    from delete_loop_Some[OF d] have "Suc k \<le> n" by simp
    then have e: "n - k = Suc (n - Suc k)" by simp
    from Cons.IH[OF d] Cons.prems(2) have "del_item (n - Suc k) ts = filter (\<lambda>t. id' (h t) \<noteq> i) ts" by simp
    then show ?thesis using False e by (simp add: del_item_def)
  qed
qed

subsection \<open>Effect of each operation; well-formedness is preserved\<close>

lemma add_result: "fst (add s d) = task_top s"
  by (simp add: add_def Let_def)

lemma add_state:
  "snd (add s d) =
     s\<lparr>task_objs := (task_objs s)
          (task_top s := \<lparr>id' = next_id s, description = d, is_complete = False\<rparr>),
       task_top := Suc (task_top s),
       list_objs := (list_objs s)(tasks s := self_tasks s @ [task_top s]),
       next_id := next_id s + 1\<rparr>"
  by (simp add: add_def Let_def self_tasks_def)

lemma wf_init: "wf TodoService_init"
  by (simp add: wf_def TodoService_init_def self_tasks_def)

lemma wf_add: assumes "wf s" shows "wf (snd (add s d))"
proof -
  let ?s = "snd (add s d)"
  have st: "self_tasks ?s = self_tasks s @ [task_top s]"
    by (simp add: add_state self_tasks_def)
  have old: "\<And>t. t \<in> set (self_tasks s) \<Longrightarrow> task_objs ?s t = task_objs s t"
    using assms by (auto simp: add_state wf_def)
  have new: "id' (task_objs ?s (task_top s)) = next_id s"
    by (simp add: add_state)
  have m: "map (\<lambda>t. id' (task_objs ?s t)) (self_tasks s) = map (\<lambda>t. id' (task_objs s t)) (self_tasks s)"
    using old by simp
  have "tasks ?s < list_top ?s" using assms by (simp add: add_state wf_def)
  moreover have "\<forall>t\<in>set (self_tasks ?s). t < task_top ?s \<and> id' (task_objs ?s t) < next_id ?s"
  proof
    fix t assume "t \<in> set (self_tasks ?s)"
    then consider "t \<in> set (self_tasks s)" | "t = task_top s" using st by auto
    then show "t < task_top ?s \<and> id' (task_objs ?s t) < next_id ?s"
    proof cases
      case 1
      with assms have "t < task_top s" "id' (task_objs s t) < next_id s" by (auto simp: wf_def)
      moreover have "task_top ?s = Suc (task_top s)" "next_id ?s = next_id s + 1" by (simp_all add: add_state)
      ultimately show ?thesis using old[OF 1] by simp
    next
      case 2
      then show ?thesis using new by (simp add: add_state)
    qed
  qed
  moreover have "distinct (map (\<lambda>t. id' (task_objs ?s t)) (self_tasks ?s))"
  proof -
    have "next_id s \<notin> set (map (\<lambda>t. id' (task_objs s t)) (self_tasks s))"
      using assms by (auto simp: wf_def)
    moreover have "map (\<lambda>t. id' (task_objs ?s t)) (self_tasks ?s) =
        map (\<lambda>t. id' (task_objs s t)) (self_tasks s) @ [next_id s]"
      unfolding st map_append m by (simp add: new)
    ultimately show ?thesis using assms by (simp add: wf_def)
  qed
  ultimately show ?thesis by (simp add: wf_def)
qed

lemma wf_get_all: "wf s \<Longrightarrow> wf (snd (get_all s))"
  by (auto simp: wf_def get_all_def Let_def self_tasks_def)

lemma wf_set_field:
  assumes "wf s" and "id' v = id' (task_objs s t)"
  shows "wf (s\<lparr>task_objs := (task_objs s)(t := v)\<rparr>)"
proof -
  have "\<And>u. id' (((task_objs s)(t := v)) u) = id' (task_objs s u)"
    using assms(2) by simp
  then show ?thesis using assms(1) by (simp add: wf_def self_tasks_def)
qed

lemma wf_update: "wf s \<Longrightarrow> wf (snd (update s i d))"
  by (simp add: update_def wf_set_field split: option.splits)

lemma wf_mark_complete: "wf s \<Longrightarrow> wf (snd (mark_complete s i))"
  by (simp add: mark_complete_def wf_set_field split: option.splits)

lemma wf_mark_incomplete: "wf s \<Longrightarrow> wf (snd (mark_incomplete s i))"
  by (simp add: mark_incomplete_def wf_set_field split: option.splits)

lemma delete_state:
  assumes "distinct (map (\<lambda>t. id' (task_objs s t)) (self_tasks s))"
  shows "snd (delete s i) =
           s\<lparr>list_objs := (list_objs s)
                (tasks s := filter (\<lambda>t. id' (task_objs s t) \<noteq> i) (self_tasks s))\<rparr>"
proof (cases "delete_loop (task_objs s) (self_tasks s) i 0")
  case None
  then have "\<forall>t\<in>set (self_tasks s). id' (task_objs s t) \<noteq> i"
    by (simp add: delete_loop_None get_by_id_loop_None)
  then have "filter (\<lambda>t. id' (task_objs s t) \<noteq> i) (self_tasks s) = list_objs s (tasks s)"
    by (simp add: filter_id_conv self_tasks_def)
  then show ?thesis using None by (simp add: delete_def)
next
  case (Some n)
  from delete_loop_filter[OF Some assms] show ?thesis using Some by (simp add: delete_def)
qed

lemma wf_delete: assumes "wf s" shows "wf (snd (delete s i))"
proof -
  from assms have d: "distinct (map (\<lambda>t. id' (task_objs s t)) (self_tasks s))" by (simp add: wf_def)
  show ?thesis using assms unfolding delete_state[OF d]
    by (auto simp: wf_def self_tasks_def distinct_map_filter)
qed

lemma add_task_result:
  "fst (add_task s d) =
     (if d = [] \<or> strip d = [] then Inl (ValueError ''Description cannot be empty.'')
      else Inr (task_top s))"
  by (simp add: add_task_def add_def Let_def)

lemma add_task_state:
  "snd (add_task s d) = (if d = [] \<or> strip d = [] then s else snd (add s d))"
  by (simp add: add_task_def split: prod.splits)

lemma update_task_result:
  "fst (update_task s i d) =
     (if d = [] \<or> strip d = [] then Inl (ValueError ''Description cannot be empty.'')
      else Inr (fst (update s i d)))"
  by (simp add: update_task_def split: prod.splits)

lemma update_task_state:
  "snd (update_task s i d) = (if d = [] \<or> strip d = [] then s else snd (update s i d))"
  by (simp add: update_task_def split: prod.splits)

lemma wf_perform: "wf s \<Longrightarrow> wf (perform c s)"
  by (cases c) (simp_all add: add_task_state update_task_state get_all_tasks_def delete_task_def
      mark_complete_task_def mark_incomplete_task_def wf_add wf_get_all wf_update wf_delete
      wf_mark_complete wf_mark_incomplete)

lemma wf_session: "wf s \<Longrightarrow> wf (session cs s)"
  by (induction cs arbitrary: s) (simp_all add: wf_perform)

subsection \<open>Identifiers handed out by a session\<close>

lemma blank_iff: "(d = [] \<or> strip d = []) \<longleftrightarrow> blank d"
  by (simp add: blank_def strip_empty_iff)

lemma new_task_Some:
  assumes "new_task c s = Some t"
  shows "t = task_top s"
    and "id' (task_objs (perform c s) t) = next_id s"
    and "next_id (perform c s) = next_id s + 1"
    and "task_top (perform c s) = Suc (task_top s)"
    and "self_tasks (perform c s) = self_tasks s @ [t]"
proof -
  from assms obtain d where c: "c = AddTask d" by (cases c) simp_all
  with assms have v: "\<not> (d = [] \<or> strip d = [])"
    by (auto simp: add_task_result)
  with assms c show t: "t = task_top s" by (simp add: add_task_result)
  from v c have p: "perform c s = snd (add s d)" by (simp add: add_task_state)
  show "id' (task_objs (perform c s) t) = next_id s" by (simp add: p t add_state)
  show "next_id (perform c s) = next_id s + 1" by (simp add: p add_state)
  show "task_top (perform c s) = Suc (task_top s)" by (simp add: p add_state)
  show "self_tasks (perform c s) = self_tasks s @ [t]" by (simp add: p t add_state self_tasks_def)
qed

lemma new_task_None:
  assumes "new_task c s = None"
  shows "next_id (perform c s) = next_id s"
    and "task_top (perform c s) = task_top s"
proof -
  have "next_id (perform c s) = next_id s \<and> task_top (perform c s) = task_top s"
  proof (cases c)
    case (AddTask d)
    with assms have "d = [] \<or> strip d = []" by (auto simp: add_task_result split: if_splits)
    with AddTask show ?thesis by (simp add: add_task_state)
  next
    case GetAllTasks then show ?thesis by (simp add: get_all_tasks_def get_all_def Let_def)
  next
    case (GetTask i) then show ?thesis by simp
  next
    case (UpdateTask i d) then show ?thesis
      by (simp add: update_task_state update_def split: option.splits)
  next
    case (DeleteTask i) then show ?thesis
      by (simp add: delete_task_def delete_def split: option.splits)
  next
    case (MarkComplete i) then show ?thesis
      by (simp add: mark_complete_task_def mark_complete_def split: option.splits)
  next
    case (MarkIncomplete i) then show ?thesis
      by (simp add: mark_incomplete_task_def mark_incomplete_def split: option.splits)
  qed
  then show "next_id (perform c s) = next_id s" and "task_top (perform c s) = task_top s"
    by simp_all
qed

lemma added_ids_upto:
  "added_ids cs s = [next_id s..next_id s + int (length (added_ids cs s)) - 1]"
proof (induction cs arbitrary: s)
  case Nil
  show ?case by simp
next
  case (Cons c cs)
  show ?case
  proof (cases "new_task c s")
    case None
    then show ?thesis using Cons.IH[of "perform c s"] by (simp add: new_task_None)
  next
    case (Some t)
    let ?n = "int (length (added_ids cs (perform c s)))"
    have "added_ids (c # cs) s = next_id s # added_ids cs (perform c s)"
      using Some by (simp add: new_task_Some)
    also have "added_ids cs (perform c s) = [next_id s + 1..next_id s + 1 + ?n - 1]"
      using Cons.IH[of "perform c s"] by (simp add: new_task_Some(3)[OF Some])
    also have "next_id s # [next_id s + 1..next_id s + 1 + ?n - 1] = [next_id s..next_id s + ?n]"
      by (simp add: upto_rec1)
    finally show ?thesis using Some by simp
  qed
qed

lemma strict_sorted_upto: "sorted_wrt (<) [i..j]"
  by (simp add: strict_sorted_iff)

lemma perform_next_id_mono: "next_id s \<le> next_id (perform c s)"
  by (cases "new_task c s") (simp_all add: new_task_None new_task_Some)

lemma session_next_id_mono: "next_id s \<le> next_id (session cs s)"
proof (induction cs arbitrary: s)
  case Nil show ?case by simp
next
  case (Cons c cs)
  have "next_id s \<le> next_id (perform c s)" by (rule perform_next_id_mono)
  also have "\<dots> \<le> next_id (session cs (perform c s))" by (rule Cons.IH)
  finally show ?case by simp
qed

subsection \<open>Unfolding the operations on concrete inputs\<close>

lemmas run_defs =
  add_task_def add_def get_all_tasks_def get_all_def get_task_def get_by_id_def
  update_task_def update_def delete_task_def delete_def del_item_def
  mark_complete_task_def mark_complete_def mark_incomplete_task_def mark_incomplete_def
  self_tasks_def strip_def isspace_def py_str_def TodoService_init_def Let_def

lemma wf_reachable: "wf (session cs TodoService_init)"
  by (rule wf_session) (rule wf_init)

subsection \<open>Lookups after field assignments\<close>

lemma get_by_id_set_field:
  assumes "id' v = id' (task_objs s t)"
  shows "get_by_id (s\<lparr>task_objs := (task_objs s)(t := v)\<rparr>) i = get_by_id s i"
proof -
  have "\<And>u. id' (((task_objs s)(t := v)) u) = id' (task_objs s u)"
    using assms by simp
  then have "get_by_id_loop ((task_objs s)(t := v)) (self_tasks s) i =
      get_by_id_loop (task_objs s) (self_tasks s) i"
    by (intro get_by_id_loop_cong)
  then show ?thesis
    by (simp add: get_by_id_def self_tasks_def)
qed

lemma get_by_id_None: "get_by_id s i = None \<longleftrightarrow> (\<forall>t\<in>set (self_tasks s). id' (task_objs s t) \<noteq> i)"
  by (simp add: get_by_id_def get_by_id_loop_None)

lemma update_found:
  assumes "get_by_id s i = Some task"
  shows "update s i d =
    (True, s\<lparr>task_objs := (task_objs s)(task := (task_objs s task)\<lparr>description := d\<rparr>)\<rparr>)"
  using assms by (simp add: update_def)

lemma update_task_found:
  assumes "get_by_id s i = Some task" and "\<not> blank d"
  shows "update_task s i d =
    (Inr True, s\<lparr>task_objs := (task_objs s)(task := (task_objs s task)\<lparr>description := d\<rparr>)\<rparr>)"
  using assms blank_iff[of d] by (simp add: update_task_def update_found)

subsection \<open>Marking\<close>

lemma mark_complete_found:
  assumes "get_by_id s i = Some task"
  shows "mark_complete s i =
    (True, s\<lparr>task_objs := (task_objs s)(task := (task_objs s task)\<lparr>is_complete := True\<rparr>)\<rparr>)"
  using assms by (simp add: mark_complete_def)

lemma mark_incomplete_found:
  assumes "get_by_id s i = Some task"
  shows "mark_incomplete s i =
    (True, s\<lparr>task_objs := (task_objs s)(task := (task_objs s task)\<lparr>is_complete := False\<rparr>)\<rparr>)"
  using assms by (simp add: mark_incomplete_def)

lemma set_flag_same:
  assumes "is_complete (task_objs s task) = b"
  shows "s\<lparr>task_objs := (task_objs s)(task := (task_objs s task)\<lparr>is_complete := b\<rparr>)\<rparr> = s"
proof -
  from assms have "(task_objs s task)\<lparr>is_complete := b\<rparr> = task_objs s task" by simp
  then have "(task_objs s)(task := (task_objs s task)\<lparr>is_complete := b\<rparr>) = task_objs s"
    by simp
  then show ?thesis by simp
qed

lemma set_flag_twice:
  "get_by_id s i = Some task \<Longrightarrow>
   get_by_id (s\<lparr>task_objs := (task_objs s)(task := (task_objs s task)\<lparr>is_complete := b\<rparr>)\<rparr>) i
     = Some task"
  using get_by_id_set_field[of "(task_objs s task)\<lparr>is_complete := b\<rparr>" s task i] by simp

lemma mark_complete_twice:
  assumes "get_by_id s i = Some task"
  shows "mark_complete (snd (mark_complete s i)) i = (True, snd (mark_complete s i))"
proof -
  let ?s' = "s\<lparr>task_objs := (task_objs s)(task := (task_objs s task)\<lparr>is_complete := True\<rparr>)\<rparr>"
  have e: "snd (mark_complete s i) = ?s'" by (simp add: mark_complete_found[OF assms])
  have g: "get_by_id ?s' i = Some task" by (rule set_flag_twice[OF assms])
  have "is_complete (task_objs ?s' task) = True" by simp
  from set_flag_same[OF this] mark_complete_found[OF g] show ?thesis unfolding e by simp
qed

lemma mark_incomplete_twice:
  assumes "get_by_id s i = Some task"
  shows "mark_incomplete (snd (mark_incomplete s i)) i = (True, snd (mark_incomplete s i))"
proof -
  let ?s' = "s\<lparr>task_objs := (task_objs s)(task := (task_objs s task)\<lparr>is_complete := False\<rparr>)\<rparr>"
  have e: "snd (mark_incomplete s i) = ?s'" by (simp add: mark_incomplete_found[OF assms])
  have g: "get_by_id ?s' i = Some task" by (rule set_flag_twice[OF assms])
  have "is_complete (task_objs ?s' task) = False" by simp
  from set_flag_same[OF this] mark_incomplete_found[OF g] show ?thesis unfolding e by simp
qed

subsection \<open>Lookups after add and delete\<close>

lemma get_by_id_loop_append:
  "get_by_id_loop h (xs @ ys) i =
     (case get_by_id_loop h xs i of Some t \<Rightarrow> Some t | None \<Rightarrow> get_by_id_loop h ys i)"
  by (induction xs) simp_all

lemma get_by_id_after_add:
  assumes "wf s"
  shows "get_by_id (snd (add s d)) (next_id s) = Some (task_top s)"
proof -
  let ?s = "snd (add s d)"
  have st: "self_tasks ?s = self_tasks s @ [task_top s]"
    by (simp add: add_state self_tasks_def)
  have "\<forall>t\<in>set (self_tasks s). id' (task_objs ?s t) \<noteq> next_id s"
  proof
    fix t assume t: "t \<in> set (self_tasks s)"
    with assms have "t < task_top s" "id' (task_objs s t) < next_id s" by (auto simp: wf_def)
    then show "id' (task_objs ?s t) \<noteq> next_id s" by (simp add: add_state)
  qed
  then have "get_by_id_loop (task_objs ?s) (self_tasks s) (next_id s) = None"
    by (simp add: get_by_id_loop_None)
  moreover have "id' (task_objs ?s (task_top s)) = next_id s" by (simp add: add_state)
  ultimately show ?thesis
    by (simp add: get_by_id_def st get_by_id_loop_append)
qed

lemma get_by_id_after_delete:
  assumes "wf s"
  shows "get_by_id (snd (delete s i)) i = None"
proof -
  from assms have d: "distinct (map (\<lambda>t. id' (task_objs s t)) (self_tasks s))"
    by (simp add: wf_def)
  show ?thesis unfolding delete_state[OF d]
    by (simp add: get_by_id_None self_tasks_def)
qed

subsection \<open>The order of the list\<close>

lemma session_append: "session (cs @ ds) s = session ds (session cs s)"
  by (induction cs arbitrary: s) simp_all

lemma added_append: "added (cs @ ds) s = added cs s @ added ds (session cs s)"
  by (induction cs arbitrary: s) (simp_all split: option.splits)

lemma get_all_self_tasks:
  "tasks s < list_top s \<Longrightarrow> self_tasks (snd (get_all s)) = self_tasks s"
  by (simp add: get_all_def Let_def self_tasks_def)

lemma get_all_result:
  "list_objs (snd (get_all s)) (fst (get_all s)) = self_tasks s"
  by (simp add: get_all_def Let_def)

lemma update_self_tasks: "self_tasks (snd (update s i d)) = self_tasks s"
  by (simp add: update_def self_tasks_def split: option.splits)

lemma mark_complete_self_tasks: "self_tasks (snd (mark_complete s i)) = self_tasks s"
  by (simp add: mark_complete_def self_tasks_def split: option.splits)

lemma mark_incomplete_self_tasks: "self_tasks (snd (mark_incomplete s i)) = self_tasks s"
  by (simp add: mark_incomplete_def self_tasks_def split: option.splits)

lemma delete_self_tasks:
  assumes "wf s"
  shows "self_tasks (snd (delete s i)) = filter (\<lambda>t. id' (task_objs s t) \<noteq> i) (self_tasks s)"
proof -
  from assms have d: "distinct (map (\<lambda>t. id' (task_objs s t)) (self_tasks s))"
    by (simp add: wf_def)
  show ?thesis unfolding delete_state[OF d] by (simp add: self_tasks_def)
qed

lemma perform_keeps_order:
  assumes "wf s" and "new_task c s = None"
  shows "\<exists>P. self_tasks (perform c s) = filter P (self_tasks s)"
proof (cases c)
  case (AddTask d)
  with assms(2) have "d = [] \<or> strip d = []" by (auto simp: add_task_result split: if_splits)
  with AddTask have "self_tasks (perform c s) = filter (\<lambda>_. True) (self_tasks s)"
    by (simp add: add_task_state)
  then show ?thesis by blast
next
  case GetAllTasks
  with assms(1) have "self_tasks (perform c s) = filter (\<lambda>_. True) (self_tasks s)"
    by (simp add: get_all_tasks_def get_all_self_tasks wf_def)
  then show ?thesis by blast
next
  case (GetTask i)
  then have "self_tasks (perform c s) = filter (\<lambda>_. True) (self_tasks s)" by simp
  then show ?thesis by blast
next
  case (UpdateTask i d)
  then have "self_tasks (perform c s) = filter (\<lambda>_. True) (self_tasks s)"
    by (simp add: update_task_state update_self_tasks)
  then show ?thesis by blast
next
  case (DeleteTask i)
  with assms(1) have "self_tasks (perform c s) =
      filter (\<lambda>t. id' (task_objs s t) \<noteq> i) (self_tasks s)"
    by (simp add: delete_task_def delete_self_tasks)
  then show ?thesis by blast
next
  case (MarkComplete i)
  then have "self_tasks (perform c s) = filter (\<lambda>_. True) (self_tasks s)"
    by (simp add: mark_complete_task_def mark_complete_self_tasks)
  then show ?thesis by blast
next
  case (MarkIncomplete i)
  then have "self_tasks (perform c s) = filter (\<lambda>_. True) (self_tasks s)"
    by (simp add: mark_incomplete_task_def mark_incomplete_self_tasks)
  then show ?thesis by blast
qed

lemma filter_survivors:
  assumes "xs = filter (\<lambda>x. x \<in> set xs) A"
  shows "filter P xs = filter (\<lambda>x. x \<in> set (filter P xs)) A"
proof -
  have "filter (\<lambda>x. x \<in> set (filter P xs)) A = filter P (filter (\<lambda>x. x \<in> set xs) A)"
    by (simp add: conj_commute)
  with assms show ?thesis by simp
qed

lemma survivors_in_add_order:
  "self_tasks (session cs TodoService_init) =
     filter (\<lambda>t. t \<in> set (self_tasks (session cs TodoService_init))) (added cs TodoService_init)
   \<and> distinct (added cs TodoService_init)
   \<and> (\<forall>t\<in>set (added cs TodoService_init). t < task_top (session cs TodoService_init))"
proof (induction cs rule: rev_induct)
  case Nil
  show ?case by (simp add: TodoService_init_def self_tasks_def)
next
  case (snoc c cs)
  let ?s = "session cs TodoService_init"
  let ?A = "added cs TodoService_init"
  from snoc have ih1: "self_tasks ?s = filter (\<lambda>t. t \<in> set (self_tasks ?s)) ?A"
    and ih2: "distinct ?A" and ih3: "\<forall>t\<in>set ?A. t < task_top ?s" by blast+
  have s': "session (cs @ [c]) TodoService_init = perform c ?s" by (simp add: session_append)
  show ?case
  proof (cases "new_task c ?s")
    case None
    then have A': "added (cs @ [c]) TodoService_init = ?A" by (simp add: added_append)
    from perform_keeps_order[OF wf_reachable None] obtain P
      where P: "self_tasks (perform c ?s) = filter P (self_tasks ?s)" ..
    have "filter P (self_tasks ?s) = filter (\<lambda>x. x \<in> set (filter P (self_tasks ?s))) ?A"
      by (rule filter_survivors) (rule ih1)
    then have 1: "self_tasks (perform c ?s) =
        filter (\<lambda>t. t \<in> set (self_tasks (perform c ?s))) ?A" unfolding P .
    have 3: "\<forall>t\<in>set ?A. t < task_top (perform c ?s)"
      using ih3 by (simp add: new_task_None(2)[OF None])
    from 1 ih2 3 show ?thesis unfolding s' A' by blast
  next
    case (Some t)
    then have A': "added (cs @ [c]) TodoService_init = ?A @ [t]" by (simp add: added_append)
    note f = new_task_Some[OF Some]
    from ih3 f(1) have nt: "\<forall>x\<in>set ?A. x \<noteq> t" by auto
    then have "filter (\<lambda>x. x \<in> set (self_tasks ?s @ [t])) ?A =
        filter (\<lambda>x. x \<in> set (self_tasks ?s)) ?A"
      by (intro filter_cong) auto
    then have "filter (\<lambda>x. x \<in> set (self_tasks ?s @ [t])) (?A @ [t]) = self_tasks ?s @ [t]"
      using ih1 by simp
    then have 1: "self_tasks (perform c ?s) =
        filter (\<lambda>x. x \<in> set (self_tasks (perform c ?s))) (?A @ [t])"
      unfolding f(5) by simp
    have 2: "distinct (?A @ [t])" using ih2 nt by auto
    have 3: "\<forall>x\<in>set (?A @ [t]). x < task_top (perform c ?s)"
      using ih3 f(1) by (auto simp: f(4))
    from 1 2 3 show ?thesis unfolding s' A' by blast
  qed
qed

subsection \<open>The list that \<open>get_all\<close> returns\<close>



subsection \<open>The list of the store is the log of survivors\<close>

lemma surviving_append:
  "surviving (cs @ ds) s log = surviving ds (session cs s) (surviving cs s log)"
  by (induction cs arbitrary: s log) simp_all

lemma note_call_not_delete:
  assumes "\<And>i. c \<noteq> DeleteTask i"
  shows "note_call c s log =
     (case new_task c s of
        Some task \<Rightarrow> log @ [(task, id' (task_objs (perform c s) task))]
      | None \<Rightarrow> log)"
proof (cases c)
  case (DeleteTask i)
  with assms show ?thesis by blast
qed (simp_all cong: option.case_cong)

lemma new_task_DeleteTask: "new_task (DeleteTask i) s = None"
  by simp

lemma perform_keeps_ids:
  assumes "t < task_top s"
  shows "id' (task_objs (perform c s) t) = id' (task_objs s t)"
proof (cases c)
  case (AddTask d)
  with assms show ?thesis by (simp add: add_task_state add_state)
next
  case GetAllTasks
  then show ?thesis by (simp add: get_all_tasks_def get_all_def Let_def)
next
  case (GetTask i)
  then show ?thesis by simp
next
  case (UpdateTask i d)
  then show ?thesis by (simp add: update_task_state update_def split: option.splits)
next
  case (DeleteTask i)
  then show ?thesis by (simp add: delete_task_def delete_def split: option.splits)
next
  case (MarkComplete i)
  then show ?thesis by (simp add: mark_complete_task_def mark_complete_def split: option.splits)
next
  case (MarkIncomplete i)
  then show ?thesis
    by (simp add: mark_incomplete_task_def mark_incomplete_def split: option.splits)
qed

lemma perform_unchanged_list:
  assumes "wf s" and "new_task c s = None" and "\<And>i. c \<noteq> DeleteTask i"
  shows "self_tasks (perform c s) = self_tasks s"
proof (cases c)
  case (AddTask d)
  with assms(2) have "d = [] \<or> strip d = []" by (auto simp: add_task_result split: if_splits)
  with AddTask show ?thesis by (simp add: add_task_state)
next
  case GetAllTasks
  with assms(1) show ?thesis by (simp add: get_all_tasks_def get_all_self_tasks wf_def)
next
  case (GetTask i)
  then show ?thesis by simp
next
  case (UpdateTask i d)
  then show ?thesis by (simp add: update_task_state update_self_tasks)
next
  case (DeleteTask i)
  with assms(3) show ?thesis by blast
next
  case (MarkComplete i)
  then show ?thesis by (simp add: mark_complete_task_def mark_complete_self_tasks)
next
  case (MarkIncomplete i)
  then show ?thesis by (simp add: mark_incomplete_task_def mark_incomplete_self_tasks)
qed

lemma filter_logged:
  assumes "\<forall>p\<in>set log. id' (h (fst p)) = snd p"
  shows "filter (\<lambda>t. id' (h t) \<noteq> i) (map fst log) = map fst (filter (\<lambda>p. snd p \<noteq> i) log)"
  using assms by (induction log) auto

lemma store_is_surviving:
  "self_tasks (session cs TodoService_init) = map fst (surviving cs TodoService_init [])
   \<and> (\<forall>p\<in>set (surviving cs TodoService_init []).
         id' (task_objs (session cs TodoService_init) (fst p)) = snd p)"
proof (induction cs rule: rev_induct)
  case Nil
  show ?case by (simp add: TodoService_init_def self_tasks_def)
next
  case (snoc c cs)
  let ?s = "session cs TodoService_init"
  let ?L = "surviving cs TodoService_init []"
  note w = wf_reachable[of cs]
  from snoc have ih1: "self_tasks ?s = map fst ?L"
    and ih2: "\<forall>p\<in>set ?L. id' (task_objs ?s (fst p)) = snd p" by blast+
  have s': "session (cs @ [c]) TodoService_init = perform c ?s" by (simp add: session_append)
  have L': "surviving (cs @ [c]) TodoService_init [] = note_call c ?s ?L"
    by (simp add: surviving_append)
  have old: "id' (task_objs (perform c ?s) (fst p)) = snd p" if "p \<in> set ?L" for p
  proof -
    from that ih1 have "fst p \<in> set (self_tasks ?s)" by simp
    with w have "fst p < task_top ?s" by (simp add: wf_def)
    then have "id' (task_objs (perform c ?s) (fst p)) = id' (task_objs ?s (fst p))"
      by (rule perform_keeps_ids)
    with ih2 that show ?thesis by simp
  qed
  show ?case
  proof (cases "\<exists>i. c = DeleteTask i")
    case True
    then obtain i where c: "c = DeleteTask i" ..
    have "self_tasks (perform c ?s) = filter (\<lambda>t. id' (task_objs ?s t) \<noteq> i) (map fst ?L)"
      using w by (simp add: c delete_task_def delete_self_tasks ih1)
    also have "\<dots> = map fst (filter (\<lambda>p. snd p \<noteq> i) ?L)"
      by (rule filter_logged) (rule ih2)
    finally have 1: "self_tasks (perform c ?s) = map fst (note_call c ?s ?L)"
      by (simp add: c)
    have 2: "\<forall>p\<in>set (note_call c ?s ?L). id' (task_objs (perform c ?s) (fst p)) = snd p"
      using old by (simp add: c)
    from 1 2 show ?thesis unfolding s' L' by blast
  next
    case False
    then have nd: "\<And>i. c \<noteq> DeleteTask i" by blast
    show ?thesis
    proof (cases "new_task c ?s")
      case None
      have n: "note_call c ?s ?L = ?L" by (simp add: note_call_not_delete[OF nd] None)
      have 1: "self_tasks (perform c ?s) = map fst ?L"
        using perform_unchanged_list[OF w None nd] ih1 by simp
      have 2: "\<forall>p\<in>set ?L. id' (task_objs (perform c ?s) (fst p)) = snd p"
        using old by blast
      from 1 2 show ?thesis unfolding s' L' n by blast
    next
      case (Some t)
      have n: "note_call c ?s ?L = ?L @ [(t, id' (task_objs (perform c ?s) t))]"
        by (simp add: note_call_not_delete[OF nd] Some)
      note f = new_task_Some[OF Some]
      have 1: "self_tasks (perform c ?s) =
          map fst (?L @ [(t, id' (task_objs (perform c ?s) t))])"
        by (simp add: f(5) ih1)
      have 2: "\<forall>p\<in>set (?L @ [(t, id' (task_objs (perform c ?s) t))]).
          id' (task_objs (perform c ?s) (fst p)) = snd p"
        using old by auto
      from 1 2 show ?thesis unfolding s' L' n by blast
    qed
  qed
qed

section \<open>The claims\<close>

text \<open>
  C1. In every session started on a fresh service, the identifiers of the Tasks returned
  by the successful \<open>add_task\<close> calls, in call order, are 1, 2, ..., n whatever other calls
  come in between: they start at 1, increase strictly and never repeat, so the identifier
  of a deleted task is not handed out again. After add "a", add "b", delete(1), add "c"
  the identifiers returned are 1, 2 and 3.
\<close>

theorem added_ids_sequential:
  "added_ids cs TodoService_init = [1..int (length (added_ids cs TodoService_init))]
   \<and> sorted_wrt (<) (added_ids cs TodoService_init)
   \<and> distinct (added_ids cs TodoService_init)
   \<and> added_ids [AddTask (py_str ''a''), AddTask (py_str ''b''), DeleteTask 1,
        AddTask (py_str ''c'')] TodoService_init = [1, 2, 3]"
proof -
  have n: "next_id TodoService_init = 1" by (simp add: TodoService_init_def)
  have u: "added_ids cs TodoService_init = [1..int (length (added_ids cs TodoService_init))]"
    using added_ids_upto[of cs TodoService_init] by (simp add: n)
  have s: "sorted_wrt (<) (added_ids cs TodoService_init)"
    by (subst u) (rule strict_sorted_upto)
  have d: "distinct (added_ids cs TodoService_init)"
    by (subst u) simp
  have e: "added_ids [AddTask (py_str ''a''), AddTask (py_str ''b''), DeleteTask 1,
        AddTask (py_str ''c'')] TodoService_init = [1, 2, 3]"
    by (simp add: run_defs)
  from u s d e show ?thesis by blast
qed

text \<open>
  C2. In every state that a session reaches from a fresh service, no two tasks of the
  store's list have the same identifier and every stored identifier is below the
  next-identifier counter; no call decreases the counter, in any state, and so no
  sequence of calls does.
\<close>

theorem reachable_ids_unique_below_counter:
  "distinct (map (\<lambda>t. id' (task_objs (session cs TodoService_init) t))
      (self_tasks (session cs TodoService_init)))
   \<and> (\<forall>t\<in>set (self_tasks (session cs TodoService_init)).
         id' (task_objs (session cs TodoService_init) t) < next_id (session cs TodoService_init))
   \<and> next_id s \<le> next_id (perform c s)
   \<and> next_id s \<le> next_id (session cs s)"
  using wf_reachable[of cs] perform_next_id_mono[of s c] session_next_id_mono[of s cs]
  by (simp add: wf_def)

theorem reachable_ids_unique_below_counter_witness:
  "self_tasks (session [AddTask (py_str ''a''), AddTask (py_str ''b''), DeleteTask 1]
      TodoService_init) = [1]
   \<and> id' (task_objs (session [AddTask (py_str ''a''), AddTask (py_str ''b''), DeleteTask 1]
        TodoService_init) 1)
       < next_id (session [AddTask (py_str ''a''), AddTask (py_str ''b''), DeleteTask 1]
          TodoService_init)
   \<and> next_id (session [AddTask (py_str ''a''), AddTask (py_str ''b''), DeleteTask 1]
        TodoService_init) = 3"
proof -
  let ?s = "session [AddTask (py_str ''a''), AddTask (py_str ''b''), DeleteTask 1]
      TodoService_init"
  have m: "self_tasks ?s = [1]" by (simp add: run_defs)
  have n: "next_id ?s = 3" by (simp add: run_defs)
  from reachable_ids_unique_below_counter
    [of "[AddTask (py_str ''a''), AddTask (py_str ''b''), DeleteTask 1]"]
  have "\<forall>t\<in>set (self_tasks ?s). id' (task_objs ?s t) < next_id ?s" by blast
  then have "id' (task_objs ?s 1) < next_id ?s" unfolding m by simp
  with m n show ?thesis by blast
qed

text \<open>
  C3. \<open>add_task\<close> raises (its \<open>ValueError\<close>, the specification's InvalidInput) exactly when
  the description is empty or consists only of whitespace. For any other description it
  returns a Task whose description is the given text, whose \<open>is_complete\<close> is false and
  whose id is the value of the next-identifier counter before the call.
\<close>

theorem add_task_rejects_exactly_blank:
  "((\<exists>e. fst (add_task s d) = Inl e) \<longleftrightarrow> blank d)
   \<and> (blank d \<longrightarrow> fst (add_task s d) = Inl (ValueError ''Description cannot be empty.''))
   \<and> (\<not> blank d \<longrightarrow>
        (\<exists>task s'. add_task s d = (Inr task, s') \<and>
           task_objs s' task = \<lparr>id' = next_id s, description = d, is_complete = False\<rparr>))"
proof (cases "blank d")
  case True
  then have "d = [] \<or> strip d = []" by (simp add: blank_iff)
  then have "fst (add_task s d) = Inl (ValueError ''Description cannot be empty.'')"
    by (simp only: add_task_result if_True)
  with True show ?thesis by simp
next
  case False
  then have v: "\<not> (d = [] \<or> strip d = [])" by (simp add: blank_iff)
  then have r: "fst (add_task s d) = Inr (task_top s)" by (simp only: add_task_result if_False)
  from v have st: "snd (add_task s d) = snd (add s d)" by (simp only: add_task_state if_False)
  have "add_task s d = (Inr (task_top s), snd (add s d))"
    using r st by (simp add: prod_eq_iff)
  moreover have "task_objs (snd (add s d)) (task_top s) =
      \<lparr>id' = next_id s, description = d, is_complete = False\<rparr>"
    by (simp add: add_state)
  ultimately show ?thesis using False r by auto
qed

theorem add_task_rejects_exactly_blank_witness:
  "blank (py_str '''') \<and> blank (py_str ''   '') \<and> \<not> blank (py_str ''buy milk'')
   \<and> fst (add_task TodoService_init (py_str '''')) =
        Inl (ValueError ''Description cannot be empty.'')
   \<and> fst (add_task TodoService_init (py_str ''   '')) =
        Inl (ValueError ''Description cannot be empty.'')
   \<and> (\<exists>task s'. add_task TodoService_init (py_str ''buy milk'') = (Inr task, s') \<and>
         task_objs s' task = \<lparr>id' = 1, description = py_str ''buy milk'', is_complete = False\<rparr>)"
proof -
  have b: "blank (py_str '''')" "blank (py_str ''   '')" "\<not> blank (py_str ''buy milk'')"
    by (simp_all add: blank_def py_str_def isspace_def)
  have n: "next_id TodoService_init = 1" by (simp add: TodoService_init_def)
  show ?thesis
    using b add_task_rejects_exactly_blank[of TodoService_init "py_str ''''"]
      add_task_rejects_exactly_blank[of TodoService_init "py_str ''   ''"]
      add_task_rejects_exactly_blank[of TodoService_init "py_str ''buy milk''"]
    unfolding n by blast
qed

text \<open>
  C9. When \<open>add_task\<close> or \<open>update_task\<close> raises for an empty or whitespace-only
  description, the state after the call is the state before it: no task added or changed,
  the counter not incremented.
\<close>

theorem invalid_input_leaves_state:
  "(blank d \<longrightarrow>
      add_task s d = (Inl (ValueError ''Description cannot be empty.''), s) \<and>
      update_task s i d = (Inl (ValueError ''Description cannot be empty.''), s))
   \<and> (fst (add_task s d) = Inl e \<longrightarrow> snd (add_task s d) = s)
   \<and> (fst (update_task s i d) = Inl e' \<longrightarrow> snd (update_task s i d) = s)"
proof -
  have a: "blank d \<Longrightarrow> add_task s d = (Inl (ValueError ''Description cannot be empty.''), s)"
    using blank_iff[of d] by (simp add: add_task_def)
  have u: "blank d \<Longrightarrow> update_task s i d = (Inl (ValueError ''Description cannot be empty.''), s)"
    using blank_iff[of d] by (simp add: update_task_def)
  have a': "fst (add_task s d) = Inl e \<Longrightarrow> snd (add_task s d) = s"
    by (auto simp: add_task_result add_task_state split: if_splits)
  have u': "fst (update_task s i d) = Inl e' \<Longrightarrow> snd (update_task s i d) = s"
    by (auto simp: update_task_result update_task_state split: if_splits)
  from a u a' u' show ?thesis by blast
qed

theorem invalid_input_leaves_state_witness:
  "blank (py_str ''  '')
   \<and> fst (add_task (session [AddTask (py_str ''a'')] TodoService_init) (py_str ''  ''))
       = Inl (ValueError ''Description cannot be empty.'')
   \<and> snd (add_task (session [AddTask (py_str ''a'')] TodoService_init) (py_str ''  ''))
       = session [AddTask (py_str ''a'')] TodoService_init
   \<and> fst (update_task (session [AddTask (py_str ''a'')] TodoService_init) 1 (py_str ''  ''))
       = Inl (ValueError ''Description cannot be empty.'')
   \<and> snd (update_task (session [AddTask (py_str ''a'')] TodoService_init) 1 (py_str ''  ''))
       = session [AddTask (py_str ''a'')] TodoService_init"
proof -
  have b: "blank (py_str ''  '')" by (simp add: blank_def py_str_def isspace_def)
  from b invalid_input_leaves_state
    [of "py_str ''  ''" "session [AddTask (py_str ''a'')] TodoService_init" 1]
  have "add_task (session [AddTask (py_str ''a'')] TodoService_init) (py_str ''  '') =
      (Inl (ValueError ''Description cannot be empty.''),
       session [AddTask (py_str ''a'')] TodoService_init)"
    and "update_task (session [AddTask (py_str ''a'')] TodoService_init) 1 (py_str ''  '') =
      (Inl (ValueError ''Description cannot be empty.''),
       session [AddTask (py_str ''a'')] TodoService_init)"
    by blast+
  with b show ?thesis by simp
qed

text \<open>
  C5. When \<open>get_task\<close> finds a task for the id and the new description is neither empty
  nor whitespace-only, \<open>update_task\<close> returns success; afterwards \<open>get_task\<close> gives the same
  Task, now with the new description and with its id and \<open>is_complete\<close> as before; every
  other Task object, the list of the store and the counter are unchanged.
\<close>

theorem update_task_roundtrip:
  assumes "get_task s i = Some task" and "\<not> blank d"
  shows "fst (update_task s i d) = Inr True
    \<and> get_task (snd (update_task s i d)) i = Some task
    \<and> task_objs (snd (update_task s i d)) task =
        \<lparr>id' = id' (task_objs s task), description = d,
         is_complete = is_complete (task_objs s task)\<rparr>
    \<and> (\<forall>u. u \<noteq> task \<longrightarrow> task_objs (snd (update_task s i d)) u = task_objs s u)
    \<and> self_tasks (snd (update_task s i d)) = self_tasks s
    \<and> next_id (snd (update_task s i d)) = next_id s"
proof -
  let ?s' = "s\<lparr>task_objs := (task_objs s)(task := (task_objs s task)\<lparr>description := d\<rparr>)\<rparr>"
  from assms have g: "get_by_id s i = Some task" by (simp add: get_task_def)
  from update_task_found[OF g assms(2)] have e: "update_task s i d = (Inr True, ?s')" .
  have "get_by_id ?s' i = get_by_id s i" by (rule get_by_id_set_field) simp
  with g have 1: "get_task ?s' i = Some task" by (simp add: get_task_def)
  have 2: "task_objs ?s' task = \<lparr>id' = id' (task_objs s task), description = d,
         is_complete = is_complete (task_objs s task)\<rparr>" by simp
  have 3: "\<forall>u. u \<noteq> task \<longrightarrow> task_objs ?s' u = task_objs s u" by simp
  have 4: "self_tasks ?s' = self_tasks s" by (simp add: self_tasks_def)
  have 5: "next_id ?s' = next_id s" by simp
  show ?thesis unfolding e fst_conv snd_conv by (intro conjI refl 1 2 3 4 5)
qed

theorem update_task_roundtrip_witness:
  "get_task (session [AddTask (py_str ''a''), AddTask (py_str ''b''), MarkComplete 1]
      TodoService_init) 1 = Some 0
   \<and> \<not> blank (py_str ''new text'')
   \<and> fst (update_task (session [AddTask (py_str ''a''), AddTask (py_str ''b''), MarkComplete 1]
      TodoService_init) 1 (py_str ''new text'')) = Inr True
   \<and> task_objs (snd (update_task (session [AddTask (py_str ''a''), AddTask (py_str ''b''),
      MarkComplete 1] TodoService_init) 1 (py_str ''new text''))) 0 =
        \<lparr>id' = 1, description = py_str ''new text'', is_complete = True\<rparr>"
proof -
  let ?s = "session [AddTask (py_str ''a''), AddTask (py_str ''b''), MarkComplete 1]
      TodoService_init"
  have g: "get_task ?s 1 = Some 0" by (simp add: run_defs)
  have b: "\<not> blank (py_str ''new text'')" by (simp add: blank_def py_str_def isspace_def)
  have o: "id' (task_objs ?s 0) = 1" "is_complete (task_objs ?s 0) = True" by (simp_all add: run_defs)
  from update_task_roundtrip[OF g b] g b show ?thesis unfolding o by blast
qed

text \<open>
  C7. When \<open>get_task\<close> finds a task for the id, \<open>mark_complete\<close> and \<open>mark_incomplete\<close>
  both return success. On a task that already is in the target state the call returns
  success and leaves the whole state as it was; and a second identical call returns
  success and leaves the state that the first call produced.
\<close>

theorem mark_succeeds_and_is_idempotent:
  assumes "get_task s i = Some task"
  shows "fst (mark_complete_task s i) = True
    \<and> fst (mark_incomplete_task s i) = True
    \<and> (is_complete (task_objs s task) \<longrightarrow> mark_complete_task s i = (True, s))
    \<and> (\<not> is_complete (task_objs s task) \<longrightarrow> mark_incomplete_task s i = (True, s))
    \<and> mark_complete_task (snd (mark_complete_task s i)) i = (True, snd (mark_complete_task s i))
    \<and> mark_incomplete_task (snd (mark_incomplete_task s i)) i =
        (True, snd (mark_incomplete_task s i))"
proof -
  from assms have g: "get_by_id s i = Some task" by (simp add: get_task_def)
  have 1: "fst (mark_complete_task s i) = True"
    by (simp add: mark_complete_task_def mark_complete_found[OF g])
  have 2: "fst (mark_incomplete_task s i) = True"
    by (simp add: mark_incomplete_task_def mark_incomplete_found[OF g])
  have 3: "is_complete (task_objs s task) \<longrightarrow> mark_complete_task s i = (True, s)"
    using set_flag_same[of s task True]
    by (simp add: mark_complete_task_def mark_complete_found[OF g])
  have 4: "\<not> is_complete (task_objs s task) \<longrightarrow> mark_incomplete_task s i = (True, s)"
    using set_flag_same[of s task False]
    by (simp add: mark_incomplete_task_def mark_incomplete_found[OF g])
  have 5: "mark_complete_task (snd (mark_complete_task s i)) i =
      (True, snd (mark_complete_task s i))"
    unfolding mark_complete_task_def by (rule mark_complete_twice[OF g])
  have 6: "mark_incomplete_task (snd (mark_incomplete_task s i)) i =
      (True, snd (mark_incomplete_task s i))"
    unfolding mark_incomplete_task_def by (rule mark_incomplete_twice[OF g])
  show ?thesis by (intro conjI 1 2 3 4 5 6)
qed

theorem mark_succeeds_and_is_idempotent_witness:
  "get_task (session [AddTask (py_str ''a''), MarkComplete 1] TodoService_init) 1 = Some 0
   \<and> is_complete (task_objs (session [AddTask (py_str ''a''), MarkComplete 1] TodoService_init) 0)
   \<and> mark_complete_task (session [AddTask (py_str ''a''), MarkComplete 1] TodoService_init) 1 =
        (True, session [AddTask (py_str ''a''), MarkComplete 1] TodoService_init)
   \<and> fst (mark_incomplete_task
        (session [AddTask (py_str ''a''), MarkComplete 1] TodoService_init) 1) = True"
proof -
  let ?s = "session [AddTask (py_str ''a''), MarkComplete 1] TodoService_init"
  have g: "get_task ?s 1 = Some 0" by (simp add: run_defs)
  have c: "is_complete (task_objs ?s 0)" by (simp add: run_defs)
  from mark_succeeds_and_is_idempotent[OF g] c have
    "mark_complete_task ?s 1 = (True, ?s)" "fst (mark_incomplete_task ?s 1) = True"
    by simp_all
  with g c show ?thesis by (intro conjI)
qed

text \<open>
  C6. When no task of the store has the id, \<open>get_task\<close> returns \<open>None\<close>, and
  \<open>update_task\<close> (with a description that is not blank), \<open>delete_task\<close>, \<open>mark_complete\<close>
  and \<open>mark_incomplete\<close> return \<open>False\<close> as a value, nothing raised, the state unchanged;
  \<open>update_task(999, "x")\<close> on a fresh service returns \<open>False\<close>. And in every state a
  session reaches from a fresh service, when \<open>delete_task\<close> returns \<open>True\<close> for an id,
  \<open>get_task\<close> for that id then returns \<open>None\<close>.
\<close>

theorem absent_id_reports_failure:
  "((\<forall>t\<in>set (self_tasks s). id' (task_objs s t) \<noteq> i) \<longrightarrow>
      get_task s i = None
      \<and> (\<not> blank d \<longrightarrow> update_task s i d = (Inr False, s))
      \<and> delete_task s i = (False, s)
      \<and> mark_complete_task s i = (False, s)
      \<and> mark_incomplete_task s i = (False, s))
   \<and> update_task TodoService_init 999 (py_str ''x'') = (Inr False, TodoService_init)
   \<and> (fst (delete_task (session cs TodoService_init) j) \<longrightarrow>
        get_task (snd (delete_task (session cs TodoService_init) j)) j = None)"
proof -
  have a: "get_task s i = None
      \<and> (\<not> blank d \<longrightarrow> update_task s i d = (Inr False, s))
      \<and> delete_task s i = (False, s)
      \<and> mark_complete_task s i = (False, s)
      \<and> mark_incomplete_task s i = (False, s)"
    if "\<forall>t\<in>set (self_tasks s). id' (task_objs s t) \<noteq> i"
  proof -
    from that have g: "get_by_id s i = None" by (simp add: get_by_id_None)
    then have l: "delete_loop (task_objs s) (self_tasks s) i 0 = None"
      by (simp add: delete_loop_None get_by_id_def)
    have 1: "get_task s i = None" using g by (simp add: get_task_def)
    have 2: "\<not> blank d \<longrightarrow> update_task s i d = (Inr False, s)"
      using g blank_iff[of d] by (simp add: update_task_def update_def)
    have 3: "delete_task s i = (False, s)" using l by (simp add: delete_task_def delete_def)
    have 4: "mark_complete_task s i = (False, s)"
      using g by (simp add: mark_complete_task_def mark_complete_def)
    have 5: "mark_incomplete_task s i = (False, s)"
      using g by (simp add: mark_incomplete_task_def mark_incomplete_def)
    show ?thesis by (intro conjI 1 2 3 4 5)
  qed
  have b: "update_task TodoService_init 999 (py_str ''x'') = (Inr False, TodoService_init)"
    by (simp add: run_defs)
  have c: "get_task (snd (delete_task (session cs TodoService_init) j)) j = None"
    using get_by_id_after_delete[OF wf_reachable, of cs j]
    by (simp add: get_task_def delete_task_def)
  from a b c show ?thesis by blast
qed

theorem absent_id_reports_failure_witness:
  "self_tasks (session [AddTask (py_str ''a'')] TodoService_init) = [0]
   \<and> id' (task_objs (session [AddTask (py_str ''a'')] TodoService_init) 0) \<noteq> 7
   \<and> \<not> blank (py_str ''x'')
   \<and> get_task (session [AddTask (py_str ''a'')] TodoService_init) 7 = None
   \<and> update_task (session [AddTask (py_str ''a'')] TodoService_init) 7 (py_str ''x'') =
       (Inr False, session [AddTask (py_str ''a'')] TodoService_init)
   \<and> delete_task (session [AddTask (py_str ''a'')] TodoService_init) 7 =
       (False, session [AddTask (py_str ''a'')] TodoService_init)
   \<and> fst (delete_task (session [AddTask (py_str ''a'')] TodoService_init) 1)
   \<and> get_task (snd (delete_task (session [AddTask (py_str ''a'')] TodoService_init) 1)) 1 = None"
proof -
  let ?s = "session [AddTask (py_str ''a'')] TodoService_init"
  have l: "self_tasks ?s = [0]" by (simp add: run_defs)
  have h: "\<forall>t\<in>set (self_tasks ?s). id' (task_objs ?s t) \<noteq> 7"
    unfolding l by (simp add: run_defs)
  have b: "\<not> blank (py_str ''x'')" by (simp add: blank_def py_str_def isspace_def)
  have f: "fst (delete_task ?s 1)" by (simp add: run_defs)
  note t = absent_id_reports_failure[of ?s 7 "py_str ''x''" "[AddTask (py_str ''a'')]" 1]
  from t h b have 1: "get_task ?s 7 = None"
    and 2: "update_task ?s 7 (py_str ''x'') = (Inr False, ?s)"
    and 3: "delete_task ?s 7 = (False, ?s)" by blast+
  from t f have 4: "get_task (snd (delete_task ?s 1)) 1 = None" by blast
  from h have h0: "id' (task_objs ?s 0) \<noteq> 7" unfolding l by simp
  show ?thesis by (intro conjI l h0 b 1 2 3 f 4)
qed

text \<open>
  C10. A description with at least one non-whitespace character is stored as it is given,
  leading and trailing whitespace included: after \<open>add_task\<close> in any state a session reaches
  from a fresh service, \<open>get_task\<close> for the id of the returned Task gives that Task and its
  description is the argument; and after \<open>update_task\<close> on a task that \<open>get_task\<close> finds, in
  any state, \<open>get_task\<close> gives the same Task and its description is the argument.
\<close>

theorem description_stored_verbatim:
  assumes "\<exists>c\<in>set d. \<not> isspace c"
  shows "(\<exists>task. fst (add_task (session cs TodoService_init) d) = Inr task
           \<and> get_task (snd (add_task (session cs TodoService_init) d))
                (id' (task_objs (snd (add_task (session cs TodoService_init) d)) task))
               = Some task
           \<and> description (task_objs (snd (add_task (session cs TodoService_init) d)) task) = d)
    \<and> (get_task s i = Some task' \<longrightarrow>
          fst (update_task s i d) = Inr True
          \<and> get_task (snd (update_task s i d)) i = Some task'
          \<and> description (task_objs (snd (update_task s i d)) task') = d)"
proof -
  let ?S = "session cs TodoService_init"
  from assms have nb: "\<not> blank d" by (auto simp: blank_def)
  then have v: "\<not> (d = [] \<or> strip d = [])" by (simp add: blank_iff)
  have r: "fst (add_task ?S d) = Inr (task_top ?S)" using v by (simp only: add_task_result if_False)
  have st: "snd (add_task ?S d) = snd (add ?S d)" using v by (simp only: add_task_state if_False)
  have o: "task_objs (snd (add ?S d)) (task_top ?S) =
      \<lparr>id' = next_id ?S, description = d, is_complete = False\<rparr>"
    by (simp add: add_state)
  have g: "get_task (snd (add_task ?S d)) (id' (task_objs (snd (add_task ?S d)) (task_top ?S)))
      = Some (task_top ?S)"
    unfolding st o using get_by_id_after_add[OF wf_reachable, of cs d]
    by (simp add: get_task_def)
  have de: "description (task_objs (snd (add_task ?S d)) (task_top ?S)) = d"
    unfolding st o by simp
  have a: "\<exists>task. fst (add_task ?S d) = Inr task
           \<and> get_task (snd (add_task ?S d)) (id' (task_objs (snd (add_task ?S d)) task))
               = Some task
           \<and> description (task_objs (snd (add_task ?S d)) task) = d"
    using r g de by blast
  have u: "fst (update_task s i d) = Inr True
          \<and> get_task (snd (update_task s i d)) i = Some task'
          \<and> description (task_objs (snd (update_task s i d)) task') = d"
    if "get_task s i = Some task'"
  proof -
    let ?s' = "s\<lparr>task_objs := (task_objs s)(task' := (task_objs s task')\<lparr>description := d\<rparr>)\<rparr>"
    from that have gg: "get_by_id s i = Some task'" by (simp add: get_task_def)
    from update_task_found[OF gg nb] have e: "update_task s i d = (Inr True, ?s')" .
    have "get_by_id ?s' i = get_by_id s i" by (rule get_by_id_set_field) simp
    with gg have 1: "get_task ?s' i = Some task'" by (simp add: get_task_def)
    have 2: "description (task_objs ?s' task') = d" by simp
    show ?thesis unfolding e fst_conv snd_conv by (intro conjI refl 1 2)
  qed
  from a u show ?thesis by blast
qed

theorem description_stored_verbatim_witness:
  "(\<exists>c\<in>set (py_str ''  buy milk ''). \<not> isspace c)
   \<and> fst (add_task (session [] TodoService_init) (py_str ''  buy milk '')) = Inr 0
   \<and> description (task_objs
        (snd (add_task (session [] TodoService_init) (py_str ''  buy milk ''))) 0) =
       py_str ''  buy milk ''
   \<and> get_task (session [AddTask (py_str ''a'')] TodoService_init) 1 = Some 0
   \<and> description (task_objs (snd (update_task (session [AddTask (py_str ''a'')]
        TodoService_init) 1 (py_str ''  buy milk ''))) 0) = py_str ''  buy milk ''"
proof -
  let ?d = "py_str ''  buy milk ''"
  let ?s = "session [AddTask (py_str ''a'')] TodoService_init"
  have h: "\<exists>c\<in>set ?d. \<not> isspace c" by (simp add: py_str_def isspace_def)
  have g: "get_task ?s 1 = Some 0" by (simp add: run_defs)
  have r: "fst (add_task (session [] TodoService_init) ?d) = Inr 0" by (simp add: run_defs)
  note t = description_stored_verbatim[OF h, of "[]" ?s 1 0]
  from t r have 1: "description (task_objs (snd (add_task (session [] TodoService_init) ?d)) 0)
      = ?d" by auto
  from t g have 2: "description (task_objs (snd (update_task ?s 1 ?d)) 0) = ?d" by blast
  show ?thesis by (intro conjI h r 1 g 2)
qed

text \<open>
  C4. In every state a session reaches from a fresh service, the list that
  \<open>get_all_tasks\<close> returns is the log of survivors: exactly the Tasks that the session's
  successful \<open>add_task\<close> calls returned and that no later \<open>delete_task\<close> call named by id, in
  the order of their \<open>add_task\<close> calls, each still with the id it was given. It is also the
  sequence of all added Tasks restricted to those in the store, and no Task was added
  twice. A successful \<open>add_task\<close> puts its Task at the end of the list of the store;
  \<open>update_task\<close>, \<open>mark_complete\<close> and \<open>mark_incomplete\<close> leave that list as it is;
  \<open>delete_task\<close> removes the task with the given id and keeps the others in their order;
  and \<open>get_all_tasks\<close> itself does not change the list of the store.
\<close>

theorem get_all_tasks_in_add_order:
  "list_objs (snd (get_all_tasks (session cs TodoService_init)))
      (fst (get_all_tasks (session cs TodoService_init))) =
     map fst (surviving cs TodoService_init [])
   \<and> map (\<lambda>t. id' (task_objs (snd (get_all_tasks (session cs TodoService_init))) t))
       (list_objs (snd (get_all_tasks (session cs TodoService_init)))
          (fst (get_all_tasks (session cs TodoService_init)))) =
     map snd (surviving cs TodoService_init [])
   \<and> list_objs (snd (get_all_tasks (session cs TodoService_init)))
      (fst (get_all_tasks (session cs TodoService_init))) =
     filter (\<lambda>t. t \<in> set (self_tasks (session cs TodoService_init)))
       (added cs TodoService_init)
   \<and> distinct (added cs TodoService_init)
   \<and> (new_task c (session cs TodoService_init) = Some task \<longrightarrow>
        self_tasks (perform c (session cs TodoService_init)) =
          self_tasks (session cs TodoService_init) @ [task])
   \<and> self_tasks (snd (update_task s i d)) = self_tasks s
   \<and> self_tasks (snd (mark_complete_task s i)) = self_tasks s
   \<and> self_tasks (snd (mark_incomplete_task s i)) = self_tasks s
   \<and> self_tasks (snd (delete_task (session cs TodoService_init) i)) =
       filter (\<lambda>t. id' (task_objs (session cs TodoService_init) t) \<noteq> i)
         (self_tasks (session cs TodoService_init))
   \<and> self_tasks (snd (get_all_tasks (session cs TodoService_init))) =
       self_tasks (session cs TodoService_init)"
proof -
  let ?S = "session cs TodoService_init"
  let ?L = "surviving cs TodoService_init []"
  note w = wf_reachable[of cs]
  have r: "list_objs (snd (get_all_tasks ?S)) (fst (get_all_tasks ?S)) = self_tasks ?S"
    by (simp add: get_all_tasks_def get_all_result)
  have o: "task_objs (snd (get_all_tasks ?S)) = task_objs ?S"
    by (simp add: get_all_tasks_def get_all_def Let_def)
  from store_is_surviving[of cs] have l: "self_tasks ?S = map fst ?L"
    and k: "\<forall>p\<in>set ?L. id' (task_objs ?S (fst p)) = snd p" by blast+
  have a: "list_objs (snd (get_all_tasks ?S)) (fst (get_all_tasks ?S)) = map fst ?L"
    unfolding r by (rule l)
  have b: "map (\<lambda>t. id' (task_objs (snd (get_all_tasks ?S)) t))
       (list_objs (snd (get_all_tasks ?S)) (fst (get_all_tasks ?S))) = map snd ?L"
    unfolding r o l using k by simp
  have 1: "list_objs (snd (get_all_tasks ?S)) (fst (get_all_tasks ?S)) =
     filter (\<lambda>t. t \<in> set (self_tasks ?S)) (added cs TodoService_init)"
    unfolding r using survivors_in_add_order[of cs] by blast
  have 2: "distinct (added cs TodoService_init)"
    using survivors_in_add_order[of cs] by blast
  have ap: "new_task c ?S = Some task \<longrightarrow> self_tasks (perform c ?S) = self_tasks ?S @ [task]"
    by (simp add: new_task_Some(5))
  have 3: "self_tasks (snd (update_task s i d)) = self_tasks s"
    by (simp add: update_task_state update_self_tasks)
  have 4: "self_tasks (snd (mark_complete_task s i)) = self_tasks s"
    by (simp add: mark_complete_task_def mark_complete_self_tasks)
  have 5: "self_tasks (snd (mark_incomplete_task s i)) = self_tasks s"
    by (simp add: mark_incomplete_task_def mark_incomplete_self_tasks)
  have 6: "self_tasks (snd (delete_task ?S i)) =
       filter (\<lambda>t. id' (task_objs ?S t) \<noteq> i) (self_tasks ?S)"
    using w by (simp add: delete_task_def delete_self_tasks)
  have 7: "self_tasks (snd (get_all_tasks ?S)) = self_tasks ?S"
    using w by (simp add: get_all_tasks_def get_all_self_tasks wf_def)
  show ?thesis by (intro conjI a b 1 2 ap 3 4 5 6 7)
qed

theorem get_all_tasks_in_add_order_witness:
  "surviving [AddTask (py_str ''a''), AddTask (py_str ''b''), AddTask (py_str ''c''),
      MarkComplete 2, DeleteTask 2, UpdateTask 1 (py_str ''z''), AddTask (py_str ''d'')]
      TodoService_init [] = [(0, 1), (2, 3), (3, 4)]
   \<and> list_objs
       (snd (get_all_tasks (session [AddTask (py_str ''a''), AddTask (py_str ''b''),
          AddTask (py_str ''c''), MarkComplete 2, DeleteTask 2, UpdateTask 1 (py_str ''z''),
          AddTask (py_str ''d'')] TodoService_init)))
       (fst (get_all_tasks (session [AddTask (py_str ''a''), AddTask (py_str ''b''),
          AddTask (py_str ''c''), MarkComplete 2, DeleteTask 2, UpdateTask 1 (py_str ''z''),
          AddTask (py_str ''d'')] TodoService_init))) = [0, 2, 3]
   \<and> new_task (AddTask (py_str ''e''))
       (session [AddTask (py_str ''a''), AddTask (py_str ''b''), AddTask (py_str ''c''),
          MarkComplete 2, DeleteTask 2, UpdateTask 1 (py_str ''z''), AddTask (py_str ''d'')]
          TodoService_init) = Some 4
   \<and> self_tasks (perform (AddTask (py_str ''e''))
       (session [AddTask (py_str ''a''), AddTask (py_str ''b''), AddTask (py_str ''c''),
          MarkComplete 2, DeleteTask 2, UpdateTask 1 (py_str ''z''), AddTask (py_str ''d'')]
          TodoService_init)) = [0, 2, 3, 4]"
proof -
  let ?cs = "[AddTask (py_str ''a''), AddTask (py_str ''b''), AddTask (py_str ''c''),
      MarkComplete 2, DeleteTask 2, UpdateTask 1 (py_str ''z''), AddTask (py_str ''d'')]"
  let ?S = "session ?cs TodoService_init"
  have L: "surviving ?cs TodoService_init [] = [(0, 1), (2, 3), (3, 4)]"
    by (simp add: run_defs)
  have n: "new_task (AddTask (py_str ''e'')) ?S = Some 4" by (simp add: run_defs)
  have st: "self_tasks ?S = [0, 2, 3]" by (simp add: run_defs)
  note t = get_all_tasks_in_add_order[of ?cs "AddTask (py_str ''e'')" 4]
  from t have "list_objs (snd (get_all_tasks ?S)) (fst (get_all_tasks ?S)) =
      map fst (surviving ?cs TodoService_init [])" by blast
  then have g: "list_objs (snd (get_all_tasks ?S)) (fst (get_all_tasks ?S)) = [0, 2, 3]"
    unfolding L by simp
  from t n have "self_tasks (perform (AddTask (py_str ''e'')) ?S) = self_tasks ?S @ [4]"
    by blast
  then have p: "self_tasks (perform (AddTask (py_str ''e'')) ?S) = [0, 2, 3, 4]"
    unfolding st by simp
  show ?thesis by (intro conjI L g n p)
qed




end
